theory Spec2Isabelle
  imports Complex_Main "HOL-Library.Multiset" "HOL-Library.Log_Nat" "HOL-Library.Word"
begin

section \<open>Exceptions\<close>

text \<open>
  The exceptions that the code of \<^verbatim>\<open>rlpoker/agent.py\<close> and the library calls it makes can
  raise. A call that may raise returns \<open>error + 'a\<close>, with \<open>Inl\<close> for the exception.
  The module defines no exception class of its own.
\<close>

datatype error = ValueError | IndexError | ZeroDivisionError | AssertionError | OverflowError

section \<open>Floating-point numbers\<close>

text \<open>
  A Python \<^verbatim>\<open>float\<close> is an IEEE binary64 number and a \<^verbatim>\<open>float32\<close> tensor entry a binary32
  number. A finite number is the rational it denotes (the two zeros are not told apart).
  Arithmetic is that of IEEE 754 with gradual underflow (a mode that flushes subnormal
  numbers to zero is not modelled): results are rounded to the nearest representable number,
  a tie to the one whose last digit is even; \<open>fl_round prec emin x\<close> rounds a positive \<open>x\<close> to \<open>prec\<close> binary digits, the
  last of them at a power of two not below \<open>2 powi emin\<close> (which gives the subnormal
  numbers), and \<open>fl_exponent x\<close> is the exponent of the leading digit of \<open>x\<close>.
\<close>

definition round_half_even :: "rat \<Rightarrow> int" where
  "round_half_even y =
     (let f = \<lfloor>y\<rfloor>; r = y - of_int f
      in if r < 1 / 2 then f else if 1 / 2 < r then f + 1 else if even f then f else f + 1)"

definition fl_exponent :: "rat \<Rightarrow> int" where
  "fl_exponent x =
     (case quotient_of x of (n, d) \<Rightarrow>
        let k = bitlen n - bitlen d in if 2 powi k \<le> x then k else k - 1)"

definition fl_round :: "nat \<Rightarrow> int \<Rightarrow> rat \<Rightarrow> rat" where
  "fl_round prec emin x =
     (let p = max (fl_exponent x - int prec + 1) emin
      in of_int (round_half_even (x / 2 powi p)) * 2 powi p)"

definition round_nearest :: "nat \<Rightarrow> int \<Rightarrow> rat \<Rightarrow> rat" where
  "round_nearest prec emin x = (if x = 0 then 0 else sgn x * fl_round prec emin \<bar>x\<bar>)"

text \<open>
  Python's \<^verbatim>\<open>a / b\<close> on two \<^verbatim>\<open>int\<close>s: the exact quotient rounded to binary64 (53 digits,
  subnormal below \<open>2 powi (-1022)\<close>); \<^verbatim>\<open>ZeroDivisionError\<close> for \<open>b = 0\<close> and \<^verbatim>\<open>OverflowError\<close>
  when the rounded quotient is beyond the largest float.
\<close>

definition int_true_divide :: "int \<Rightarrow> int \<Rightarrow> error + real" where
  "int_true_divide a b =
     (if b = 0 then Inl ZeroDivisionError
      else let y = round_nearest 53 (- 1074) (of_int a / of_int b)
           in if 2 ^ 1024 \<le> \<bar>y\<bar> then Inl OverflowError else Inr (of_rat y))"

text \<open>
  The values of a float: a finite number, an infinity or \<^verbatim>\<open>nan\<close>. \<open>round_binary32\<close> rounds a
  rational to \<^verbatim>\<open>float32\<close> (24 digits, subnormal below \<open>2 powi (-126)\<close>, infinite from
  \<open>2 ^ 128\<close> on), and \<open>to_float32\<close> is the conversion of a float64 array entry that is fed to
  a \<^verbatim>\<open>float32\<close> placeholder. \<open>fadd32\<close> and \<open>fmul32\<close> are the \<^verbatim>\<open>float32\<close> sum and product.
\<close>

datatype fp = is_Finite: Finite rat | PInf | NInf | NaN

definition round_binary32 :: "rat \<Rightarrow> fp" where
  "round_binary32 x =
     (let y = round_nearest 24 (- 149) x
      in if 2 ^ 128 \<le> y then PInf else if y \<le> - (2 ^ 128) then NInf else Finite y)"


fun fadd32 :: "fp \<Rightarrow> fp \<Rightarrow> fp" where
  "fadd32 NaN y = NaN"
| "fadd32 x NaN = NaN"
| "fadd32 PInf NInf = NaN"
| "fadd32 NInf PInf = NaN"
| "fadd32 PInf y = PInf"
| "fadd32 x PInf = PInf"
| "fadd32 NInf y = NInf"
| "fadd32 x NInf = NInf"
| "fadd32 (Finite a) (Finite b) = round_binary32 (a + b)"




section \<open>Library objects used by the buffers\<close>

subsection \<open>\<^verbatim>\<open>collections.deque\<close>\<close>

text \<open>
  A deque is its contents from left to right and its \<^verbatim>\<open>maxlen\<close> (\<open>None\<close>: unbounded).
  \<^verbatim>\<open>deque(maxlen=m)\<close> raises \<^verbatim>\<open>OverflowError\<close> for an \<open>m\<close> that is not a signed 64-bit
  number and \<^verbatim>\<open>ValueError\<close> for any other negative \<open>m\<close>. \<^verbatim>\<open>append\<close> adds on the
  right and, when the length then exceeds \<^verbatim>\<open>maxlen\<close>, drops the leftmost element.
  \<^verbatim>\<open>d[idx] = v\<close> counts a negative index from the right and raises \<^verbatim>\<open>IndexError\<close> out of
  range.
\<close>

record 'a deque =
  items :: "'a list"
  deque_maxlen :: "int option"

definition deque_init :: "int option \<Rightarrow> error + 'a deque" where
  "deque_init m =
     (case m of
        None \<Rightarrow> Inr \<lparr>items = [], deque_maxlen = None\<rparr>
      | Some c \<Rightarrow>
          if c < - (2 ^ 63) \<or> 2 ^ 63 \<le> c then Inl OverflowError
          else if c < 0 then Inl ValueError
          else Inr \<lparr>items = [], deque_maxlen = Some c\<rparr>)"

definition deque_append :: "'a deque \<Rightarrow> 'a \<Rightarrow> 'a deque" where
  "deque_append d x =
     (let xs = items d @ [x]
      in case deque_maxlen d of
           None \<Rightarrow> d\<lparr>items := xs\<rparr>
         | Some c \<Rightarrow> if c < int (length xs) then d\<lparr>items := tl xs\<rparr> else d\<lparr>items := xs\<rparr>)"

definition deque_setitem :: "'a deque \<Rightarrow> int \<Rightarrow> 'a \<Rightarrow> error + 'a deque" where
  "deque_setitem d idx v =
     (let n = int (length (items d)); j = (if idx < 0 then idx + n else idx)
      in if 0 \<le> j \<and> j < n then Inr (d\<lparr>items := (items d)[nat j := v]\<rparr>) else Inl IndexError)"

definition deque_len :: "'a deque \<Rightarrow> nat" where
  "deque_len d = length (items d)"

subsection \<open>Random sources\<close>

text \<open>
  The code draws from the global generators of \<^verbatim>\<open>numpy.random\<close> and \<^verbatim>\<open>random\<close>. Every draw
  is an explicit argument here. \<^verbatim>\<open>np.random.rand()\<close> is the real number \<open>u\<close> it returns.
  A draw of an integer below \<open>n\<close> (\<^verbatim>\<open>np.random.choice(n)\<close>, \<^verbatim>\<open>random._randbelow(n)\<close>) is a raw
  natural number \<open>d\<close> reduced modulo \<open>n\<close>: every value below \<open>n\<close> is the outcome of some
  \<open>d\<close>, and no other value is an outcome. \<^verbatim>\<open>np.random.choice(a)\<close> raises \<^verbatim>\<open>ValueError\<close>
  for \<open>a \<le> 0\<close>.
\<close>

definition np_random_choice :: "int \<Rightarrow> nat \<Rightarrow> error + int" where
  "np_random_choice a d = (if a \<le> 0 then Inl ValueError else Inr (int d mod a))"

definition randbelow :: "nat \<Rightarrow> nat \<Rightarrow> nat" where
  "randbelow n d = d mod n"

subsection \<open>\<^verbatim>\<open>random.sample\<close>\<close>

text \<open>
  \<^verbatim>\<open>random.sample(population, k)\<close> of the standard library:
  \<^verbatim>\<open>
    n = len(population)
    if not 0 <= k <= n:
        raise ValueError("Sample larger than population or is negative")
    result = [None] * k
    pool = list(population)
    for i in range(k):
        j = randbelow(n - i)
        result[i] = pool[j]
        pool[j] = pool[n - i - 1]
    return result
  \<close>
  The pool is a copy, so the population is only read. The \<open>i\<close>-th call of
  \<^verbatim>\<open>randbelow\<close> takes the raw draw \<open>rng i\<close>.

  The library runs this pool procedure when \<open>n\<close> is at most a bound that is at least
  \<open>21 + 3 * k\<close> for \<open>k > 5\<close> and is 21 otherwise, in particular whenever \<open>k = n\<close>. For a
  larger population it draws positions below \<open>n\<close> and redraws while the position is already
  chosen, which returns the elements at \<open>k\<close> distinct positions in the order drawn: the
  results that can come out are those of the pool procedure, which is the one modelled for
  every size.
\<close>

fun sample_loop :: "'a list \<Rightarrow> nat \<Rightarrow> nat \<Rightarrow> (nat \<Rightarrow> nat) \<Rightarrow> 'a list" where
  "sample_loop pool i 0 rng = []"
| "sample_loop pool i (Suc m) rng =
     (let n = length pool; j = randbelow (n - i) (rng i)
      in pool ! j # sample_loop (pool[j := pool ! (n - i - 1)]) (Suc i) m rng)"

definition random_sample :: "'a list \<Rightarrow> int \<Rightarrow> (nat \<Rightarrow> nat) \<Rightarrow> error + 'a list" where
  "random_sample population k rng =
     (let n = int (length population)
      in if \<not> (0 \<le> k \<and> k \<le> n) then Inl ValueError
         else Inr (sample_loop population 0 (nat k) rng))"

text \<open>
  The positions of the population that \<^verbatim>\<open>random.sample\<close> selects: the same procedure run on
  the pool of positions \<open>[0, ..., n - 1]\<close>.
\<close>

definition sample_positions :: "nat \<Rightarrow> nat \<Rightarrow> (nat \<Rightarrow> nat) \<Rightarrow> nat list" where
  "sample_positions n k rng = sample_loop [0..<n] 0 k rng"

section \<open>Reservoir\<close>

text \<open>
  \<^verbatim>\<open>class Reservoir\<close>: the fields \<^verbatim>\<open>maxlen\<close>, \<^verbatim>\<open>i\<close> and \<^verbatim>\<open>reservoir\<close> (an unbounded deque).
  The constructor stores its argument unchecked and cannot raise.
\<close>

record 'a Reservoir =
  res_maxlen :: int
  res_i :: int
  reservoir :: "'a deque"

definition Reservoir_init :: "int \<Rightarrow> 'a Reservoir" where
  "Reservoir_init maxlen =
     \<lparr>res_maxlen = maxlen, res_i = 0, reservoir = \<lparr>items = [], deque_maxlen = None\<rparr>\<rparr>"

text \<open>
  \<^verbatim>\<open>Reservoir.append(item)\<close>; \<open>u\<close> is what \<^verbatim>\<open>np.random.rand()\<close> returns and \<open>d\<close> the raw draw
  behind \<^verbatim>\<open>np.random.choice(self.maxlen)\<close>, each used only on the path that calls it.
  \<^verbatim>\<open>self.maxlen / self.i\<close> is Python 3's true division of two \<^verbatim>\<open>int\<close>s, a float, and the
  draw \<open>u\<close> is compared with that float.
\<close>

definition Reservoir_append :: "'a Reservoir \<Rightarrow> 'a \<Rightarrow> real \<Rightarrow> nat \<Rightarrow> error + 'a Reservoir" where
  "Reservoir_append r item u d =
     (let r1 = r\<lparr>res_i := res_i r + 1\<rparr>
      in if int (deque_len (reservoir r1)) < res_maxlen r1
         then Inr (r1\<lparr>reservoir := deque_append (reservoir r1) item\<rparr>)
         else (case int_true_divide (res_maxlen r1) (res_i r1) of
                 Inl e \<Rightarrow> Inl e
               | Inr p \<Rightarrow>
                   if u < p
                   then (case np_random_choice (res_maxlen r1) d of
                           Inl e \<Rightarrow> Inl e
                         | Inr discard_idx \<Rightarrow>
                             (case deque_setitem (reservoir r1) discard_idx item of
                                Inl e \<Rightarrow> Inl e
                              | Inr q \<Rightarrow> Inr (r1\<lparr>reservoir := q\<rparr>)))
                   else Inr r1))"

text \<open>
  \<^verbatim>\<open>Reservoir.sample(n)\<close> and \<^verbatim>\<open>Reservoir.__len__\<close>. A sampling call returns what
  \<^verbatim>\<open>random.sample\<close> returns or raises, together with the object as the call leaves it.
\<close>

definition Reservoir_sample ::
  "'a Reservoir \<Rightarrow> int \<Rightarrow> (nat \<Rightarrow> nat) \<Rightarrow> (error + 'a list) \<times> 'a Reservoir" where
  "Reservoir_sample r n rng = (random_sample (items (reservoir r)) n rng, r)"

definition Reservoir_len :: "'a Reservoir \<Rightarrow> nat" where
  "Reservoir_len r = deque_len (reservoir r)"

text \<open>A sequence of \<^verbatim>\<open>append\<close> calls, each with its item and its two draws; the first
  exception ends it.\<close>

fun Reservoir_appends :: "'a Reservoir \<Rightarrow> ('a \<times> real \<times> nat) list \<Rightarrow> error + 'a Reservoir" where
  "Reservoir_appends r [] = Inr r"
| "Reservoir_appends r ((item, u, d) # rest) =
     (case Reservoir_append r item u d of
        Inl e \<Rightarrow> Inl e
      | Inr r' \<Rightarrow> Reservoir_appends r' rest)"

section \<open>CircularBuffer\<close>

text \<open>
  \<^verbatim>\<open>class CircularBuffer\<close>: the fields \<^verbatim>\<open>maxlen\<close> (default \<^verbatim>\<open>None\<close>) and \<^verbatim>\<open>buffer\<close>, a
  \<^verbatim>\<open>deque(maxlen=maxlen)\<close>, whose constructor may raise.
\<close>

record 'a CircularBuffer =
  buf_maxlen :: "int option"
  buffer :: "'a deque"

definition CircularBuffer_init :: "int option \<Rightarrow> error + 'a CircularBuffer" where
  "CircularBuffer_init maxlen =
     (case deque_init maxlen of
        Inl e \<Rightarrow> Inl e
      | Inr q \<Rightarrow> Inr \<lparr>buf_maxlen = maxlen, buffer = q\<rparr>)"

definition CircularBuffer_append :: "'a CircularBuffer \<Rightarrow> 'a \<Rightarrow> 'a CircularBuffer" where
  "CircularBuffer_append b item = b\<lparr>buffer := deque_append (buffer b) item\<rparr>"

definition CircularBuffer_sample ::
  "'a CircularBuffer \<Rightarrow> int \<Rightarrow> (nat \<Rightarrow> nat) \<Rightarrow> (error + 'a list) \<times> 'a CircularBuffer" where
  "CircularBuffer_sample b n rng = (random_sample (items (buffer b)) n rng, b)"

definition CircularBuffer_len :: "'a CircularBuffer \<Rightarrow> nat" where
  "CircularBuffer_len b = deque_len (buffer b)"

text \<open>
  A caller's sequence of calls on one buffer: appends, and sampling calls in between whose
  result (a sample or an exception) the caller consumes.
\<close>

datatype 'a buffer_call = Append 'a | Sample int "nat \<Rightarrow> nat"

fun CircularBuffer_calls :: "'a CircularBuffer \<Rightarrow> 'a buffer_call list \<Rightarrow> 'a CircularBuffer" where
  "CircularBuffer_calls b [] = b"
| "CircularBuffer_calls b (Append x # cs) = CircularBuffer_calls (CircularBuffer_append b x) cs"
| "CircularBuffer_calls b (Sample n rng # cs) =
     CircularBuffer_calls (snd (CircularBuffer_sample b n rng)) cs"

fun appended :: "'a buffer_call list \<Rightarrow> 'a list" where
  "appended [] = []"
| "appended (Append x # cs) = x # appended cs"
| "appended (Sample n rng # cs) = appended cs"

section \<open>The TensorFlow graph and session\<close>

text \<open>
  The part of TensorFlow 1 that \<^verbatim>\<open>class Agent\<close> uses. The graph's \<^verbatim>\<open>GLOBAL_VARIABLES\<close>
  collection is the list of variable names in creation order; a session is the value of
  every variable. A variable created by \<^verbatim>\<open>tf.layers.dense\<close> inside nested
  \<^verbatim>\<open>tf.variable_scope\<close> blocks is named by the enclosing scopes, the layer and the variable,
  joined by \<^verbatim>\<open>/\<close>, for instance \<^verbatim>\<open>agent_1/current_q/dense/kernel:0\<close>; the layers of one scope
  are \<^verbatim>\<open>dense\<close>, \<^verbatim>\<open>dense_1\<close>, \<^verbatim>\<open>dense_2\<close>, each with a kernel and a bias.
\<close>

type_synonym graph = "string list"

type_synonym 'v session = "string \<Rightarrow> 'v"

text \<open>
  \<^verbatim>\<open>tf.get_collection(key, scope)\<close> keeps the items whose name \<^verbatim>\<open>re.match(scope, name)\<close>
  accepts. \<^verbatim>\<open>re.match\<close> matches at the start of the string, and a pattern without special
  characters, as \<^verbatim>\<open>current_q\<close> and \<^verbatim>\<open>target_q\<close> are, matches itself: the filter is by prefix.
\<close>

fun re_match :: "string \<Rightarrow> string \<Rightarrow> bool" where
  "re_match [] s = True"
| "re_match (p # ps) [] = False"
| "re_match (p # ps) (c # cs) = (p = c \<and> re_match ps cs)"

definition get_collection :: "graph \<Rightarrow> string \<Rightarrow> string list" where
  "get_collection g scope = filter (re_match scope) g"

record network =
  net_variables :: "string list"

definition dense :: "string \<Rightarrow> string \<Rightarrow> string list" where
  "dense scope layer = [scope @ layer @ ''/kernel:0'', scope @ layer @ ''/bias:0'']"

text \<open>
  \<^verbatim>\<open>create_q_network\<close> and \<^verbatim>\<open>create_policy_network\<close> (with the defaults \<^verbatim>\<open>num_hidden=2\<close>):
  two hidden dense layers and the output layer, created under the scope \<open>outer\<close> that is
  open at the call and the scope the call opens. Both return the network and extend the
  collection. They differ in the activation of the output layer only.
\<close>

definition create_q_network :: "graph \<Rightarrow> string \<Rightarrow> string \<Rightarrow> network \<times> graph" where
  "create_q_network g outer scope =
     (let vs = outer @ scope @ ''/'';
          variables = dense vs ''dense'' @ dense vs ''dense_1'' @ dense vs ''dense_2''
      in (\<lparr>net_variables = variables\<rparr>, g @ variables))"

definition create_policy_network :: "graph \<Rightarrow> string \<Rightarrow> string \<Rightarrow> network \<times> graph" where
  "create_policy_network g outer scope =
     (let vs = outer @ scope @ ''/'';
          variables = dense vs ''dense'' @ dense vs ''dense_1'' @ dense vs ''dense_2''
      in (\<lparr>net_variables = variables\<rparr>, g @ variables))"

text \<open>
  Running a network's output tensor on a batch of input rows: \<open>fwd\<close> is the function of
  the network's variables and one input row that the layers compute (the architecture is a
  parameter here), applied under the session's current values.
\<close>

definition sess_run_output ::
  "('v list \<Rightarrow> 'x list \<Rightarrow> 'y list) \<Rightarrow> 'v session \<Rightarrow> network \<Rightarrow> 'x list list \<Rightarrow> 'y list list" where
  "sess_run_output fwd sess net batch = map (fwd (map sess (net_variables net))) batch"

section \<open>Agent\<close>

text \<open>
  The records the two memories hold (Python dictionaries with these keys): a state is a
  vector of floats, a reward a float, and an action a 32-bit number (read with \<open>sint\<close>), as
  the \<^verbatim>\<open>int32\<close> placeholder it is fed to holds.
\<close>

record transition =
  tr_state :: "fp list"
  tr_action :: "32 word"
  tr_next_state :: "fp list"
  tr_reward :: fp
  tr_terminal :: bool

record state_action_pair =
  sa_state :: "fp list"
  sa_action :: "32 word"

record Agent =
  replay_memory :: "transition CircularBuffer"
  supervised_memory :: "state_action_pair Reservoir"
  input_dim :: nat
  action_dim :: nat
  name :: string
  q_network :: network
  target_q_network :: network
  policy_network :: network
  update_ops :: "(string \<times> string) list"

text \<open>
  \<^verbatim>\<open>Agent.__init__\<close> on a graph whose collection is \<open>g\<close>. The three networks are created
  inside \<^verbatim>\<open>tf.variable_scope('agent_{}'.format(name))\<close>. \<^verbatim>\<open>update_ops\<close> pairs each target
  variable with the current variable it is assigned from; both lists come from
  \<^verbatim>\<open>tf.get_collection\<close> with the scopes \<^verbatim>\<open>'current_q'\<close> and \<^verbatim>\<open>'target_q'\<close>.
\<close>

definition Agent_init ::
  "graph \<Rightarrow> string \<Rightarrow> nat \<Rightarrow> nat \<Rightarrow> int \<Rightarrow> int \<Rightarrow> error + (Agent \<times> graph)" where
  "Agent_init g nm idim adim max_replay max_supervised =
     (case CircularBuffer_init (Some max_replay) of
        Inl e \<Rightarrow> Inl e
      | Inr rm \<Rightarrow>
          (let outer = ''agent_'' @ nm @ ''/'';
               (qn, g1) = create_q_network g outer ''current_q'';
               (tn, g2) = create_q_network g1 outer ''target_q'';
               (pn, g3) = create_policy_network g2 outer ''policy'';
               current_vars = get_collection g3 ''current_q'';
               target_vars = get_collection g3 ''target_q''
           in Inr (\<lparr>replay_memory = rm, supervised_memory = Reservoir_init max_supervised,
                     input_dim = idim, action_dim = adim, name = nm,
                     q_network = qn, target_q_network = tn, policy_network = pn,
                     update_ops = zip target_vars current_vars\<rparr>, g3)))"

text \<open>\<^verbatim>\<open>update_target_network\<close>: \<^verbatim>\<open>sess.run(self.update_ops)\<close> runs every assignment
  \<^verbatim>\<open>t.assign(c)\<close> of the list.\<close>

definition update_target_network :: "Agent \<Rightarrow> 'v session \<Rightarrow> 'v session" where
  "update_target_network agent sess = fold (\<lambda>(t, c) s. s(t := s c)) (update_ops agent) sess"

text \<open>
  A NumPy array passed as \<^verbatim>\<open>state\<close>: its shape and its entries in row-major order.
  \<^verbatim>\<open>predict_q\<close> and \<^verbatim>\<open>predict_policy\<close> assert the rank and the width before running the
  network.
\<close>

record ndarray =
  shape :: "nat list"
  entries :: "real list"

definition rows_of :: "ndarray \<Rightarrow> real list list" where
  "rows_of a =
     (let w = shape a ! 1
      in map (\<lambda>r. map (\<lambda>c. entries a ! (r * w + c)) [0..<w]) [0..<shape a ! 0])"

definition predict_q ::
  "('v list \<Rightarrow> real list \<Rightarrow> real list) \<Rightarrow> Agent \<Rightarrow> 'v session \<Rightarrow> ndarray \<Rightarrow> error + real list list" where
  "predict_q fwd agent sess st =
     (if length (shape st) \<noteq> 2 then Inl AssertionError
      else if shape st ! 1 \<noteq> input_dim agent then Inl AssertionError
      else Inr (sess_run_output fwd sess (q_network agent) (rows_of st)))"

definition predict_policy ::
  "('v list \<Rightarrow> real list \<Rightarrow> real list) \<Rightarrow> Agent \<Rightarrow> 'v session \<Rightarrow> ndarray \<Rightarrow> error + real list list" where
  "predict_policy fwd agent sess st =
     (if length (shape st) \<noteq> 2 then Inl AssertionError
      else if shape st ! 1 \<noteq> input_dim agent then Inl AssertionError
      else Inr (sess_run_output fwd sess (policy_network agent) (rows_of st)))"

subsection \<open>The value-training step\<close>








section \<open>Properties of rounding\<close>

lemma round_half_even_of_int [simp]: "round_half_even (of_int k) = k"
  by (simp add: round_half_even_def)

lemma round_half_even_ge: "of_int a \<le> y \<Longrightarrow> a \<le> round_half_even y"
proof -
  assume "of_int a \<le> y"
  then have "a \<le> \<lfloor>y\<rfloor>" by (simp add: le_floor_iff)
  then show ?thesis by (auto simp: round_half_even_def Let_def)
qed

lemma round_half_even_le: "y \<le> of_int b \<Longrightarrow> round_half_even y \<le> b"
proof -
  assume yb: "y \<le> of_int b"
  show ?thesis
  proof (cases "y = of_int b")
    case True
    then show ?thesis by simp
  next
    case False
    with yb have "y < of_int b" by simp
    then have "\<lfloor>y\<rfloor> < b" by (simp add: floor_less_iff)
    then show ?thesis by (auto simp: round_half_even_def Let_def)
  qed
qed

lemma two_powi_pos [simp]: "0 < (2::rat) powi k"
  by simp


lemma two_powi_add: "(2::rat) powi (a + b) = 2 powi a * 2 powi b"
  by (simp add: power_int_add)

lemma two_powi_nat: "0 \<le> k \<Longrightarrow> (2::rat) powi k = of_int (2 ^ nat k)"
  by (simp add: power_int_def)

lemma two_powi_less_cancel: "(2::rat) powi a < 2 powi b \<Longrightarrow> a < b"
  by (metis not_less power_int_increasing one_le_numeral)

lemma fl_exponent_bounds:
  assumes "0 < x"
  shows "2 powi fl_exponent x \<le> x" and "x < 2 powi (fl_exponent x + 1)"
proof -
  obtain n d where q: "quotient_of x = (n, d)" by (cases "quotient_of x")
  then have d: "0 < d" and x: "x = of_int n / of_int d"
    using quotient_of_denom_pos[OF q] quotient_of_div[OF q] by simp_all
  from assms x d have n: "0 < n"
    by (simp add: zero_less_divide_iff)
  let ?k = "bitlen n - bitlen d"
  have bn: "2 ^ nat (bitlen n - 1) \<le> n" "n < 2 ^ nat (bitlen n)"
    using bitlen_bounds[OF n] by simp_all
  have bd: "2 ^ nat (bitlen d - 1) \<le> d" "d < 2 ^ nat (bitlen d)"
    using bitlen_bounds[OF d] by simp_all
  have bn1: "1 \<le> bitlen n" using n by (simp add: bitlen_alt_def)
  have bd1: "1 \<le> bitlen d" using d by (simp add: bitlen_alt_def)
  have rn: "(2::rat) powi (bitlen n - 1) \<le> of_int n" "(of_int n :: rat) < 2 powi bitlen n"
  proof -
    have "(2::rat) powi (bitlen n - 1) = of_int (2 ^ nat (bitlen n - 1))"
      using bn1 by (simp add: power_int_def)
    also have "\<dots> \<le> of_int n" using bn(1) by (simp only: of_int_le_iff)
    finally show "(2::rat) powi (bitlen n - 1) \<le> of_int n" .
    have "(of_int n :: rat) < of_int (2 ^ nat (bitlen n))" using bn(2) by (simp only: of_int_less_iff)
    also have "\<dots> = 2 powi bitlen n" using bn1 by (simp add: power_int_def)
    finally show "(of_int n :: rat) < 2 powi bitlen n" .
  qed
  have rd: "(2::rat) powi (bitlen d - 1) \<le> of_int d" "(of_int d :: rat) < 2 powi bitlen d"
  proof -
    have "(2::rat) powi (bitlen d - 1) = of_int (2 ^ nat (bitlen d - 1))"
      using bd1 by (simp add: power_int_def)
    also have "\<dots> \<le> of_int d" using bd(1) by (simp only: of_int_le_iff)
    finally show "(2::rat) powi (bitlen d - 1) \<le> of_int d" .
    have "(of_int d :: rat) < of_int (2 ^ nat (bitlen d))" using bd(2) by (simp only: of_int_less_iff)
    also have "\<dots> = 2 powi bitlen d" using bd1 by (simp add: power_int_def)
    finally show "(of_int d :: rat) < 2 powi bitlen d" .
  qed
  have dpos: "(0::rat) < of_int d" using d by simp
  have up: "x < 2 powi (?k + 1)"
  proof -
    have "of_int n < (2::rat) powi bitlen n" by (rule rn(2))
    also have "\<dots> = 2 powi (?k + 1) * 2 powi (bitlen d - 1)"
      by (simp flip: power_int_add)
    also have "\<dots> \<le> 2 powi (?k + 1) * of_int d"
      using rd(1) by (intro mult_left_mono) simp_all
    finally show ?thesis using dpos by (simp add: x pos_divide_less_eq)
  qed
  have lo: "2 powi (?k - 1) < x"
  proof -
    have "2 powi (?k - 1) * of_int d < 2 powi (?k - 1) * (2::rat) powi bitlen d"
      using rd(2) by (intro mult_strict_left_mono) simp_all
    also have "\<dots> = 2 powi (bitlen n - 1)"
      by (simp flip: power_int_add)
    also have "\<dots> \<le> of_int n" by (rule rn(1))
    finally show ?thesis using dpos by (simp add: x pos_less_divide_eq)
  qed
  have e: "fl_exponent x = (if 2 powi ?k \<le> x then ?k else ?k - 1)"
    by (simp add: fl_exponent_def q Let_def)
  show "2 powi fl_exponent x \<le> x"
    using lo by (simp add: e)
  show "x < 2 powi (fl_exponent x + 1)"
    using up by (simp add: e)
qed


lemma fl_round_mantissa:
  assumes "0 < x"
  shows "0 \<le> round_half_even (x / 2 powi max (fl_exponent x - int prec + 1) emin)"
    and "round_half_even (x / 2 powi max (fl_exponent x - int prec + 1) emin) \<le> 2 ^ prec"
proof -
  let ?p = "max (fl_exponent x - int prec + 1) emin"
  have "(0::rat) \<le> x / 2 powi ?p" using assms by simp
  then show "0 \<le> round_half_even (x / 2 powi ?p)"
    using round_half_even_ge[of 0 "x / 2 powi ?p"] by simp
  have "x < 2 powi (fl_exponent x + 1)" by (rule fl_exponent_bounds(2)[OF assms])
  also have "\<dots> \<le> 2 powi (int prec + ?p)"
    by (intro power_int_increasing) simp_all
  also have "\<dots> = 2 ^ prec * 2 powi ?p"
    by (simp add: power_int_add)
  finally have "x / 2 powi ?p \<le> of_int (2 ^ prec)"
    by (simp add: pos_divide_le_eq)
  then show "round_half_even (x / 2 powi ?p) \<le> 2 ^ prec"
    by (rule round_half_even_le)
qed

lemma fl_round_nonneg: "0 < x \<Longrightarrow> 0 \<le> fl_round prec emin x"
  using fl_round_mantissa(1)[of x prec emin] by (simp add: fl_round_def Let_def)





lemma fl_round_below_one:
  assumes "0 < x" and "x < 1" and "0 < prec"
  shows "fl_round prec emin x \<le> 1"
proof -
  define p where "p = max (fl_exponent x - int prec + 1) emin"
  define t where "t = x / 2 powi p"
  have fr: "fl_round prec emin x = of_int (round_half_even t) * 2 powi p"
    by (simp add: fl_round_def Let_def p_def t_def)
  have t0: "0 \<le> t" using assms(1) by (simp add: t_def)
  have xt: "x = t * 2 powi p" by (simp add: t_def)
  show ?thesis
  proof (cases "0 \<le> p")
    case True
    show ?thesis
    proof (cases "p = 0")
      case p0: True
      then have "t \<le> of_int 1" using assms(2) by (simp add: t_def)
      then have "round_half_even t \<le> 1" by (rule round_half_even_le)
      then have "(of_int (round_half_even t) :: rat) \<le> of_int 1" by (simp only: of_int_le_iff)
      then show ?thesis by (simp add: fr p0)
    next
      case False
      with True have "1 \<le> p" by simp
      then have "(2::rat) powi 1 \<le> 2 powi p" by (intro power_int_increasing) simp_all
      then have "(2::rat) \<le> 2 powi p" by simp
      then have "x < 1 / 2 * 2 powi p" using assms(2) by linarith
      then have "t < 1 / 2"
        unfolding t_def by (simp only: pos_divide_less_eq [OF two_powi_pos])
      with t0 have "\<lfloor>t\<rfloor> = 0" by (simp add: floor_eq_iff)
      then have "round_half_even t = 0" using \<open>t < 1 / 2\<close> by (simp add: round_half_even_def Let_def)
      then show ?thesis by (simp add: fr)
    qed
  next
    case False
    then have np: "0 \<le> - p" by simp
    have inv: "(2::rat) powi (- p) * 2 powi p = 1"
      using two_powi_add[of "- p" p] by simp
    have "t = x * 2 powi (- p)"
      unfolding t_def using inv by (simp add: field_simps)
    also have "\<dots> \<le> 1 * 2 powi (- p)"
      using assms(2) by (intro mult_right_mono) simp_all
    also have "\<dots> = of_int (2 ^ nat (- p))" using two_powi_nat[OF np] by simp
    finally have "round_half_even t \<le> 2 ^ nat (- p)" by (rule round_half_even_le)
    then have "(of_int (round_half_even t) :: rat) \<le> of_int (2 ^ nat (- p))"
      by (simp only: of_int_le_iff)
    then have "of_int (round_half_even t) * 2 powi p \<le> of_int (2 ^ nat (- p)) * (2::rat) powi p"
      by (intro mult_right_mono) simp_all
    also have "\<dots> = 2 powi (- p) * 2 powi p" using two_powi_nat[OF np] by simp
    also have "\<dots> = 1" by (rule inv)
    finally show ?thesis by (simp add: fr)
  qed
qed

section \<open>Properties of the library model\<close>

lemma randbelow_less: "0 < n \<Longrightarrow> randbelow n d < n"
  by (simp add: randbelow_def)

lemma length_sample_loop: "length (sample_loop pool i m rng) = m"
  by (induction m arbitrary: pool i) (simp_all add: Let_def)

lemma mset_take_swap:
  assumes "j < l" and "l \<le> length pool"
  shows "add_mset (pool ! j) (mset (take (l - 1) (pool[j := pool ! (l - 1)]))) = mset (take l pool)"
proof -
  from assms obtain l' where l: "l = Suc l'" by (cases l) auto
  have tk: "take l pool = take l' pool @ [pool ! l']"
    using assms l by (simp add: take_Suc_conv_app_nth)
  show ?thesis
  proof (cases "j = l'")
    case True
    then show ?thesis using tk l by simp
  next
    case False
    with assms l have jl: "j < l'" by simp
    have "take l' (pool[j := pool ! l']) = (take l' pool)[j := pool ! l']"
      by (simp add: take_update_swap)
    moreover have "j < length (take l' pool)" using jl assms l by simp
    moreover have "take l' pool ! j = pool ! j" using jl by simp
    moreover have "pool ! j \<in># mset (take l' pool)"
      using calculation(2,3) nth_mem[of j "take l' pool"] by simp
    ultimately show ?thesis using tk l
      by (simp add: mset_update)
  qed
qed

lemma mset_sample_loop:
  "i + m \<le> length pool \<Longrightarrow> mset (sample_loop pool i m rng) \<subseteq># mset (take (length pool - i) pool)"
proof (induction m arbitrary: pool i)
  case 0
  then show ?case by simp
next
  case (Suc m)
  let ?n = "length pool"
  let ?j = "randbelow (?n - i) (rng i)"
  let ?pool' = "pool[?j := pool ! (?n - i - 1)]"
  from Suc.prems have pos: "0 < ?n - i" by simp
  then have j: "?j < ?n - i" by (rule randbelow_less)
  have "mset (sample_loop ?pool' (Suc i) m rng) \<subseteq># mset (take (length ?pool' - Suc i) ?pool')"
    using Suc.prems by (intro Suc.IH) simp
  then have "mset (sample_loop ?pool' (Suc i) m rng) \<subseteq># mset (take (?n - i - 1) ?pool')"
    by simp
  then have "add_mset (pool ! ?j) (mset (sample_loop ?pool' (Suc i) m rng))
               \<subseteq># add_mset (pool ! ?j) (mset (take (?n - i - 1) ?pool'))"
    by simp
  also have "\<dots> = mset (take (?n - i) pool)"
    using j by (intro mset_take_swap) simp_all
  finally show ?case by (simp add: Let_def)
qed

lemma sample_loop_map:
  "i + m \<le> length pool \<Longrightarrow> sample_loop (map f pool) i m rng = map f (sample_loop pool i m rng)"
proof (induction m arbitrary: pool i)
  case 0
  then show ?case by simp
next
  case (Suc m)
  let ?n = "length pool"
  let ?j = "randbelow (?n - i) (rng i)"
  from Suc.prems have pos: "0 < ?n - i" by simp
  then have j: "?j < ?n - i" by (rule randbelow_less)
  then have jn: "?j < ?n" by simp
  have last: "?n - i - 1 < ?n" using Suc.prems by simp
  have upd: "(map f pool)[?j := map f pool ! (?n - i - 1)] = map f (pool[?j := pool ! (?n - i - 1)])"
    using last by (simp add: map_update)
  show ?case
    using Suc.IH[of "Suc i" "pool[?j := pool ! (?n - i - 1)]"] Suc.prems jn upd
    by (simp add: Let_def)
qed

lemma distinct_mset_subseteq:
  assumes "mset xs \<subseteq># mset ys" and "distinct ys"
  shows "distinct xs"
  unfolding distinct_count_atmost_1
proof (intro allI)
  fix a
  have le: "count (mset xs) a \<le> count (mset ys) a"
    using assms(1) by (rule mset_subset_eq_count)
  have "count (mset ys) a \<le> 1"
    using assms(2) by (simp add: distinct_count_atmost_1)
  with le have le1: "count (mset xs) a \<le> 1" by simp
  show "count (mset xs) a = (if a \<in> set xs then 1 else 0)"
  proof (cases "a \<in> set xs")
    case True
    then have "0 < count (mset xs) a" by simp
    with le1 have "count (mset xs) a = 1" by linarith
    with True show ?thesis by simp
  next
    case False
    then show ?thesis by simp
  qed
qed

lemma sample_positions_props:
  assumes "k \<le> n"
  shows "length (sample_positions n k rng) = k"
    and "distinct (sample_positions n k rng)"
    and "set (sample_positions n k rng) \<subseteq> {..<n}"
proof -
  show "length (sample_positions n k rng) = k"
    by (simp add: sample_positions_def length_sample_loop)
  have sub: "mset (sample_positions n k rng) \<subseteq># mset [0..<n]"
    using mset_sample_loop[of 0 k "[0..<n]" rng] assms by (simp add: sample_positions_def)
  show "distinct (sample_positions n k rng)"
    using sub by (rule distinct_mset_subseteq) simp
  show "set (sample_positions n k rng) \<subseteq> {..<n}"
    using set_mset_mono[OF sub] by auto
qed

lemma sample_loop_positions:
  assumes "k \<le> length xs"
  shows "sample_loop xs 0 k rng = map ((!) xs) (sample_positions (length xs) k rng)"
proof -
  have "sample_loop (map ((!) xs) [0..<length xs]) 0 k rng
          = map ((!) xs) (sample_loop [0..<length xs] 0 k rng)"
    using assms by (intro sample_loop_map) simp
  then show ?thesis by (simp add: map_nth sample_positions_def)
qed

lemma random_sample_too_large:
  "int (length xs) < n \<Longrightarrow> random_sample xs n rng = Inl ValueError"
  by (simp add: random_sample_def)

lemma random_sample_all:
  "random_sample xs (int (length xs)) rng = Inr (sample_loop xs 0 (length xs) rng)"
  by (simp add: random_sample_def)

lemma random_sample_ok:
  "0 \<le> n \<Longrightarrow> n \<le> int (length xs) \<Longrightarrow>
     random_sample xs n rng = Inr (map ((!) xs) (sample_positions (length xs) (nat n) rng))"
  by (simp add: random_sample_def sample_loop_positions)

lemma mset_random_sample:
  assumes "random_sample xs n rng = Inr ys"
  shows "mset ys \<subseteq># mset xs"
proof -
  from assms have n: "0 \<le> n" "n \<le> int (length xs)" and ys: "ys = sample_loop xs 0 (nat n) rng"
    by (auto simp: random_sample_def Let_def split: if_splits)
  have "mset (sample_loop xs 0 (nat n) rng) \<subseteq># mset (take (length xs - 0) xs)"
    using n by (intro mset_sample_loop) simp
  with ys show ?thesis by simp
qed

subsection \<open>Bounded and unbounded deques under a sequence of calls\<close>

lemma deque_append_bounded:
  assumes "deque_maxlen q = Some C" and "0 \<le> C" and "int (length (items q)) \<le> C"
  shows "deque_maxlen (deque_append q x) = Some C"
    and "int (length (items (deque_append q x))) \<le> C"
  using assms by (auto simp: deque_append_def Let_def)

lemma deque_append_items:
  assumes "deque_maxlen q = Some C" and "0 \<le> C" and "int (length (items q)) \<le> C"
  shows "drop (length (items (deque_append q x) @ rest) - nat C) (items (deque_append q x) @ rest)
           = drop (length (items q @ x # rest) - nat C) (items q @ x # rest)"
proof (cases "int (length (items q)) < C")
  case True
  then show ?thesis using assms by (simp add: deque_append_def Let_def)
next
  case False
  with assms have len: "length (items q) = nat C" by simp
  define zs where "zs = items q @ x # rest"
  have lz: "length zs = Suc (nat C + length rest)"
    using len by (simp add: zs_def)
  have it: "items (deque_append q x) = tl (items q @ [x])"
    using assms len by (simp add: deque_append_def Let_def)
  have "tl (items q @ [x]) @ rest = tl zs"
    unfolding zs_def by (cases "items q") simp_all
  then have eq: "items (deque_append q x) @ rest = drop 1 zs"
    using it by (simp add: drop_Suc)
  have "drop (length (drop 1 zs) - nat C) (drop 1 zs) = drop (length rest) (drop 1 zs)"
    using lz by simp
  also have "\<dots> = drop (length zs - nat C) zs"
    using lz by simp
  finally show ?thesis
    unfolding eq zs_def .
qed

lemma calls_bounded:
  assumes "deque_maxlen (buffer b) = Some C" and "0 \<le> C" and "int (length (items (buffer b))) \<le> C"
  shows "items (buffer (CircularBuffer_calls b cs))
           = drop (length (items (buffer b) @ appended cs) - nat C) (items (buffer b) @ appended cs)"
  using assms
proof (induction b cs rule: CircularBuffer_calls.induct)
  case (1 b)
  then show ?case by simp
next
  case (2 b x cs)
  let ?b = "CircularBuffer_append b x"
  have m: "deque_maxlen (buffer ?b) = Some C" and l: "int (length (items (buffer ?b))) \<le> C"
    using "2.prems" deque_append_bounded(1,2)[of "buffer b" C x]
    by (simp_all add: CircularBuffer_append_def)
  have "items (buffer (CircularBuffer_calls ?b cs))
          = drop (length (items (buffer ?b) @ appended cs) - nat C) (items (buffer ?b) @ appended cs)"
    by (rule "2.IH"[OF m "2.prems"(2) l])
  also have "\<dots> = drop (length (items (buffer b) @ x # appended cs) - nat C)
                     (items (buffer b) @ x # appended cs)"
    using deque_append_items[OF "2.prems", of x "appended cs"]
    by (simp add: CircularBuffer_append_def)
  finally show ?case by simp
next
  case (3 b n rng cs)
  then show ?case by (simp add: CircularBuffer_sample_def)
qed

lemma calls_unbounded:
  "deque_maxlen (buffer b) = None \<Longrightarrow>
     items (buffer (CircularBuffer_calls b cs)) = items (buffer b) @ appended cs"
proof (induction b cs rule: CircularBuffer_calls.induct)
  case (1 b)
  then show ?case by simp
next
  case (2 b x cs)
  then show ?case by (simp add: CircularBuffer_append_def deque_append_def)
next
  case (3 b n rng cs)
  then show ?case by (simp add: CircularBuffer_sample_def)
qed

section \<open>Sampling from the buffers\<close>

text \<open>
  Claim C3. For both buffers and every \<open>n\<close>: \<^verbatim>\<open>sample(n)\<close> on a buffer whose occupancy is
  strictly below \<open>n\<close> raises, and \<^verbatim>\<open>sample(occupancy)\<close> returns a sample. The exception is
  the \<^verbatim>\<open>ValueError\<close> of \<^verbatim>\<open>random.sample\<close>, which is the insufficient-data error of the
  specification; the module has no exception class of its own.
\<close>

theorem sample_insufficient_data:
  "(int (CircularBuffer_len b) < n \<longrightarrow> fst (CircularBuffer_sample b n rng) = Inl ValueError) \<and>
   (\<exists>ys. fst (CircularBuffer_sample b (int (CircularBuffer_len b)) rng) = Inr ys) \<and>
   (int (Reservoir_len r) < n \<longrightarrow> fst (Reservoir_sample r n rng) = Inl ValueError) \<and>
   (\<exists>ys. fst (Reservoir_sample r (int (Reservoir_len r)) rng) = Inr ys)"
  by (simp add: CircularBuffer_sample_def CircularBuffer_len_def Reservoir_sample_def
      Reservoir_len_def deque_len_def random_sample_too_large random_sample_all)

theorem sample_insufficient_data_witness:
  "fst (CircularBuffer_sample
          \<lparr>buf_maxlen = Some 3, buffer = \<lparr>items = [10, 20 :: nat], deque_maxlen = Some 3\<rparr>\<rparr>
          3 (\<lambda>i. 0)) = Inl ValueError \<and>
   fst (Reservoir_sample
          \<lparr>res_maxlen = 3, res_i = 2, reservoir = \<lparr>items = [10, 20 :: nat], deque_maxlen = None\<rparr>\<rparr>
          3 (\<lambda>i. 0)) = Inl ValueError"
  using sample_insufficient_data
    [of "\<lparr>buf_maxlen = Some 3, buffer = \<lparr>items = [10, 20 :: nat], deque_maxlen = Some 3\<rparr>\<rparr>"
        3 "\<lambda>i. 0"
        "\<lparr>res_maxlen = 3, res_i = 2, reservoir = \<lparr>items = [10, 20 :: nat], deque_maxlen = None\<rparr>\<rparr>"]
  by (simp add: CircularBuffer_len_def Reservoir_len_def deque_len_def)

text \<open>
  Claim C7. For both buffers and every count \<open>n\<close> from 0 up to the occupancy: \<^verbatim>\<open>sample(n)\<close>
  returns the records at \<open>n\<close> pairwise distinct positions of the buffer, so no stored
  record is returned more often than the buffer holds it, and the call leaves the buffer
  (contents, order, occupancy and every other field) as it was.
\<close>

theorem sample_without_replacement:
  "(0 \<le> n \<and> n \<le> int (CircularBuffer_len b) \<longrightarrow>
      (let js = sample_positions (CircularBuffer_len b) (nat n) rng
       in fst (CircularBuffer_sample b n rng) = Inr (map ((!) (items (buffer b))) js) \<and>
          length js = nat n \<and> distinct js \<and> set js \<subseteq> {..<CircularBuffer_len b} \<and>
          mset (map ((!) (items (buffer b))) js) \<subseteq># mset (items (buffer b)) \<and>
          snd (CircularBuffer_sample b n rng) = b)) \<and>
   (0 \<le> n \<and> n \<le> int (Reservoir_len r) \<longrightarrow>
      (let js = sample_positions (Reservoir_len r) (nat n) rng
       in fst (Reservoir_sample r n rng) = Inr (map ((!) (items (reservoir r))) js) \<and>
          length js = nat n \<and> distinct js \<and> set js \<subseteq> {..<Reservoir_len r} \<and>
          mset (map ((!) (items (reservoir r))) js) \<subseteq># mset (items (reservoir r)) \<and>
          snd (Reservoir_sample r n rng) = r))"
proof -
  have main: "let js = sample_positions (length xs) (nat n) rng
              in random_sample xs n rng = Inr (map ((!) xs) js) \<and>
                 length js = nat n \<and> distinct js \<and> set js \<subseteq> {..<length xs} \<and>
                 mset (map ((!) xs) js) \<subseteq># mset xs"
    if "0 \<le> n" and "n \<le> int (length xs)" for xs :: "'c list"
  proof -
    have k: "nat n \<le> length xs" using that by simp
    have rs: "random_sample xs n rng = Inr (map ((!) xs) (sample_positions (length xs) (nat n) rng))"
      using that by (rule random_sample_ok)
    show ?thesis
      using rs mset_random_sample[OF rs] sample_positions_props[OF k, of rng]
      by (simp add: Let_def)
  qed
  show ?thesis
    using main[of "items (buffer b)"] main[of "items (reservoir r)"]
    by (simp add: CircularBuffer_sample_def CircularBuffer_len_def Reservoir_sample_def
        Reservoir_len_def deque_len_def Let_def)
qed

theorem sample_without_replacement_witness:
  "fst (CircularBuffer_sample
          \<lparr>buf_maxlen = Some 3, buffer = \<lparr>items = [10, 20, 30 :: nat], deque_maxlen = Some 3\<rparr>\<rparr>
          2 (\<lambda>i. 4)) = Inr [20, 10] \<and>
   fst (Reservoir_sample
          \<lparr>res_maxlen = 3, res_i = 5, reservoir = \<lparr>items = [10, 20, 30 :: nat], deque_maxlen = None\<rparr>\<rparr>
          2 (\<lambda>i. 4)) = Inr [20, 10]"
proof -
  have ev: "sample_positions (Suc (Suc (Suc 0))) 2 (\<lambda>i. 4) = [Suc 0, 0]"
    by code_simp
  show ?thesis
    using sample_without_replacement
      [of 2 "\<lparr>buf_maxlen = Some 3, buffer = \<lparr>items = [10, 20, 30 :: nat], deque_maxlen = Some 3\<rparr>\<rparr>"
          "\<lambda>i. 4"
          "\<lparr>res_maxlen = 3, res_i = 5, reservoir = \<lparr>items = [10, 20, 30 :: nat], deque_maxlen = None\<rparr>\<rparr>"]
    by (simp add: CircularBuffer_len_def Reservoir_len_def deque_len_def ev Let_def)
qed

section \<open>The recency buffer\<close>

text \<open>
  Claim C4. A recency buffer constructed with capacity \<open>C \<ge> 1\<close>, after any sequence of calls
  that appends \<open>x\<^sub>1, ..., x\<^sub>n\<close> in this order with \<open>n > C\<close> and samples in between (each
  sampling call returning or raising), holds exactly the last \<open>C\<close> appended items
  \<open>x\<^bsub>n-C+1\<^esub>, ..., x\<^sub>n\<close>, oldest first.
\<close>

theorem recency_fifo:
  assumes "1 \<le> C" and "CircularBuffer_init (Some C) = Inr b0"
    and "C < int (length (appended cs))"
  shows "items (buffer (CircularBuffer_calls b0 cs))
           = drop (length (appended cs) - nat C) (appended cs) \<and>
         int (CircularBuffer_len (CircularBuffer_calls b0 cs)) = C"
proof -
  from assms(1,2) have b0: "b0 = \<lparr>buf_maxlen = Some C, buffer = \<lparr>items = [], deque_maxlen = Some C\<rparr>\<rparr>"
    by (auto simp: CircularBuffer_init_def deque_init_def split: if_splits)
  have "items (buffer (CircularBuffer_calls b0 cs))
          = drop (length (items (buffer b0) @ appended cs) - nat C) (items (buffer b0) @ appended cs)"
    using assms(1) by (intro calls_bounded) (simp_all add: b0)
  then have eq: "items (buffer (CircularBuffer_calls b0 cs))
                   = drop (length (appended cs) - nat C) (appended cs)"
    by (simp add: b0)
  from assms(1,3) have "int (length (drop (length (appended cs) - nat C) (appended cs))) = C"
    by simp
  with eq show ?thesis
    by (simp add: CircularBuffer_len_def deque_len_def)
qed

theorem recency_fifo_witness:
  "items (buffer (CircularBuffer_calls
      \<lparr>buf_maxlen = Some 3, buffer = \<lparr>items = [], deque_maxlen = Some 3\<rparr>\<rparr>
      [Append (1::nat), Append 2, Append 3, Append 4, Sample 3 (\<lambda>i. 0), Append 5])) = [3, 4, 5]"
  using recency_fifo
    [of 3 "\<lparr>buf_maxlen = Some 3, buffer = \<lparr>items = [], deque_maxlen = Some 3\<rparr>\<rparr>"
        "[Append (1::nat), Append 2, Append 3, Append 4, Sample 3 (\<lambda>i. 0), Append 5]"]
  by (simp add: CircularBuffer_init_def deque_init_def)

text \<open>
  Claim C10. A \<^verbatim>\<open>CircularBuffer()\<close> constructed without a capacity is unbounded: whatever is
  appended, nothing is evicted, the contents are all appended items in order and the
  occupancy is their number.
\<close>

theorem default_buffer_unbounded:
  assumes "CircularBuffer_init None = Inr b0"
  shows "items (buffer (CircularBuffer_calls b0 cs)) = appended cs \<and>
         CircularBuffer_len (CircularBuffer_calls b0 cs) = length (appended cs)"
proof -
  from assms have b0: "b0 = \<lparr>buf_maxlen = None, buffer = \<lparr>items = [], deque_maxlen = None\<rparr>\<rparr>"
    by (simp add: CircularBuffer_init_def deque_init_def)
  have "items (buffer (CircularBuffer_calls b0 cs)) = items (buffer b0) @ appended cs"
    by (rule calls_unbounded) (simp add: b0)
  then show ?thesis
    by (simp add: b0 CircularBuffer_len_def deque_len_def)
qed

theorem default_buffer_unbounded_witness:
  "items (buffer (CircularBuffer_calls
      \<lparr>buf_maxlen = None, buffer = \<lparr>items = [], deque_maxlen = None\<rparr>\<rparr>
      [Append (1::nat), Append 2, Append 3, Append 4])) = [1, 2, 3, 4]"
  using default_buffer_unbounded
    [of "\<lparr>buf_maxlen = None, buffer = \<lparr>items = [], deque_maxlen = None\<rparr>\<rparr>"
        "[Append (1::nat), Append 2, Append 3, Append 4]"]
  by (simp add: CircularBuffer_init_def deque_init_def)

section \<open>The reservoir\<close>

subsection \<open>The admission quotient\<close>

lemma int_true_divide_ZeroDivisionError:
  "int_true_divide a b = Inl ZeroDivisionError \<longleftrightarrow> b = 0"
  by (simp add: int_true_divide_def Let_def)



lemma int_true_divide_proper_fraction:
  assumes "0 < a" and "a < b"
  shows "\<exists>q. int_true_divide a b = Inr q"
proof -
  define x :: rat where "x = of_int a / of_int b"
  have x: "0 < x" "x < 1" using assms by (simp_all add: x_def)
  have "fl_round 53 (- 1074) x \<le> 1" using x by (intro fl_round_below_one) simp_all
  moreover have "0 \<le> fl_round 53 (- 1074) x" using x(1) by (rule fl_round_nonneg)
  moreover have "round_nearest 53 (- 1074) x = fl_round 53 (- 1074) x"
    using x(1) by (simp add: round_nearest_def)
  ultimately have "\<bar>round_nearest 53 (- 1074) x\<bar> \<le> 1" by simp
  moreover have "(1::rat) < 2 ^ 1024" by simp
  ultimately have "\<not> 2 ^ 1024 \<le> \<bar>round_nearest 53 (- 1074) x\<bar>" by linarith
  then show ?thesis
    using assms by (simp add: int_true_divide_def Let_def flip: x_def)
qed


subsection \<open>The state of a reservoir\<close>

text \<open>
  What holds of a reservoir of capacity \<open>C\<close> after \<open>n\<close> calls of \<^verbatim>\<open>append\<close>: the counter is
  \<open>n\<close> and the occupancy is \<open>min n C\<close> (0 for a capacity below 1).
\<close>

lemma Reservoir_init_state:
  "res_maxlen (Reservoir_init C) = C \<and> res_i (Reservoir_init C) = 0 \<and>
   deque_maxlen (reservoir (Reservoir_init C)) = None \<and>
   length (items (reservoir (Reservoir_init C))) = min 0 (nat C)"
  by (simp add: Reservoir_init_def)

lemma Reservoir_append_fill:
  assumes "int (length (items (reservoir r))) < res_maxlen r"
    and "deque_maxlen (reservoir r) = None"
  shows "Reservoir_append r x u d =
           Inr (r\<lparr>res_i := res_i r + 1,
                  reservoir := (reservoir r)\<lparr>items := items (reservoir r) @ [x]\<rparr>\<rparr>)"
  using assms by (simp add: Reservoir_append_def Let_def deque_len_def deque_append_def)

lemma Reservoir_append_reject:
  assumes "\<not> int (length (items (reservoir r))) < res_maxlen r"
    and "int_true_divide (res_maxlen r) (res_i r + 1) = Inr p"
    and "\<not> u < p"
  shows "Reservoir_append r x u d = Inr (r\<lparr>res_i := res_i r + 1\<rparr>)"
  using assms by (simp add: Reservoir_append_def Let_def deque_len_def)

lemma Reservoir_append_replace:
  assumes "int (length (items (reservoir r))) = res_maxlen r"
    and "1 \<le> res_maxlen r"
    and "int_true_divide (res_maxlen r) (res_i r + 1) = Inr p"
    and "u < p"
  shows "Reservoir_append r x u d =
           Inr (r\<lparr>res_i := res_i r + 1,
                  reservoir := (reservoir r)\<lparr>items :=
                     (items (reservoir r))[nat (int d mod res_maxlen r) := x]\<rparr>\<rparr>)"
proof -
  let ?k = "int d mod res_maxlen r"
  have k: "0 \<le> ?k" "?k < res_maxlen r"
    using assms(2) by simp_all
  have ch: "np_random_choice (res_maxlen r) d = Inr ?k"
    using assms(2) by (simp add: np_random_choice_def)
  have st: "deque_setitem (reservoir r) ?k x
              = Inr ((reservoir r)\<lparr>items := (items (reservoir r))[nat ?k := x]\<rparr>)"
    using k assms(1) by (simp add: deque_setitem_def Let_def)
  show ?thesis
    using assms ch st by (simp add: Reservoir_append_def Let_def deque_len_def)
qed


lemma Reservoir_append_inv_conj:
  assumes "Reservoir_append r x u d = Inr r'"
    and "res_maxlen r = C" and "res_i r = int n" and "deque_maxlen (reservoir r) = None"
    and "length (items (reservoir r)) = min n (nat C)"
  shows "res_maxlen r' = C \<and> res_i r' = int (Suc n) \<and> deque_maxlen (reservoir r') = None \<and>
         length (items (reservoir r')) = min (Suc n) (nat C)"
proof (cases "int (length (items (reservoir r))) < res_maxlen r")
  case True
  then have "r' = r\<lparr>res_i := res_i r + 1,
                     reservoir := (reservoir r)\<lparr>items := items (reservoir r) @ [x]\<rparr>\<rparr>"
    using Reservoir_append_fill[OF True assms(4), of x u d] assms(1) by simp
  moreover from True assms(2,5) have "n < nat C" by (simp add: min_def split: if_splits)
  ultimately show ?thesis using assms(2-5) by (simp add: min_def)
next
  case False
  with assms(2,5) have full: "nat C \<le> n" by (simp add: min_def split: if_splits)
  have "res_maxlen r' = C \<and> res_i r' = res_i r + 1 \<and> deque_maxlen (reservoir r') = None \<and>
        length (items (reservoir r')) = length (items (reservoir r))"
    using assms(1,2,4) False
    by (auto simp: Reservoir_append_def Let_def deque_len_def deque_setitem_def
        split: if_splits sum.splits)
  then show ?thesis using full assms(3,5) by (simp add: min_def)
qed

lemma Reservoir_append_inv:
  assumes "Reservoir_append r x u d = Inr r'"
    and "res_maxlen r = C" and "res_i r = int n" and "deque_maxlen (reservoir r) = None"
    and "length (items (reservoir r)) = min n (nat C)"
  shows "res_maxlen r' = C" and "res_i r' = int (Suc n)" and "deque_maxlen (reservoir r') = None"
    and "length (items (reservoir r')) = min (Suc n) (nat C)"
  using Reservoir_append_inv_conj[OF assms] by blast+

lemma Reservoir_appends_inv:
  assumes "Reservoir_appends r ops = Inr r'"
    and "res_maxlen r = C" and "res_i r = int n" and "deque_maxlen (reservoir r) = None"
    and "length (items (reservoir r)) = min n (nat C)"
  shows "res_maxlen r' = C \<and> res_i r' = int (n + length ops) \<and>
         deque_maxlen (reservoir r') = None \<and>
         length (items (reservoir r')) = min (n + length ops) (nat C)"
  using assms
proof (induction ops arbitrary: r n)
  case Nil
  then show ?case by simp
next
  case (Cons a ops)
  obtain x u d where a: "a = (x, u, d)" by (cases a) auto
  from Cons.prems(1) a obtain r1 where
    r1: "Reservoir_append r x u d = Inr r1" and rest: "Reservoir_appends r1 ops = Inr r'"
    by (auto split: sum.splits)
  note inv1 = Reservoir_append_inv[OF r1 Cons.prems(2-5)]
  have "res_maxlen r' = C \<and> res_i r' = int (Suc n + length ops) \<and>
        deque_maxlen (reservoir r') = None \<and>
        length (items (reservoir r')) = min (Suc n + length ops) (nat C)"
    by (rule Cons.IH[OF rest inv1])
  then show ?case by simp
qed

lemma Reservoir_append_total:
  assumes "1 \<le> C"
    and "res_maxlen r = C" and "res_i r = int n" and "deque_maxlen (reservoir r) = None"
    and "length (items (reservoir r)) = min n (nat C)"
  shows "\<exists>r'. Reservoir_append r x u d = Inr r'"
proof (cases "int (length (items (reservoir r))) < res_maxlen r")
  case True
  then show ?thesis using Reservoir_append_fill[OF True assms(4)] by blast
next
  case False
  with assms(1,2,5) have full: "int (length (items (reservoir r))) = res_maxlen r"
    by (simp add: min_def split: if_splits)
  with assms(1,2,5) have "nat C \<le> n" by (simp add: min_def split: if_splits)
  then have "res_maxlen r < res_i r + 1" using assms(1,2,3) by simp
  then obtain p where p: "int_true_divide (res_maxlen r) (res_i r + 1) = Inr p"
    using int_true_divide_proper_fraction[of "res_maxlen r" "res_i r + 1"] assms(1,2) by auto
  show ?thesis
  proof (cases "u < p")
    case True
    show ?thesis
      using Reservoir_append_replace[OF full _ p True] assms(1,2) by blast
  next
    case no: False
    show ?thesis
      using Reservoir_append_reject[OF False p no] by blast
  qed
qed

lemma Reservoir_appends_total:
  assumes "1 \<le> C"
    and "res_maxlen r = C" and "res_i r = int n" and "deque_maxlen (reservoir r) = None"
    and "length (items (reservoir r)) = min n (nat C)"
  shows "\<exists>r'. Reservoir_appends r ops = Inr r'"
  using assms
proof (induction ops arbitrary: r n)
  case Nil
  then show ?case by simp
next
  case (Cons a ops)
  obtain x u d where a: "a = (x, u, d)" by (cases a) auto
  obtain r1 where r1: "Reservoir_append r x u d = Inr r1"
    using Reservoir_append_total[OF Cons.prems] by blast
  note inv1 = Reservoir_append_inv[OF r1 Cons.prems(2-5)]
  have "\<exists>r'. Reservoir_appends r1 ops = Inr r'"
    by (rule Cons.IH[OF Cons.prems(1) inv1])
  then show ?case using a r1 by simp
qed

lemma Reservoir_append_no_zero_division:
  assumes "0 \<le> res_i r"
  shows "Reservoir_append r x u d \<noteq> Inl ZeroDivisionError"
    and "Reservoir_append r x u d = Inr r' \<Longrightarrow> 0 \<le> res_i r'"
proof -
  have nz: "int_true_divide (res_maxlen r) (res_i r + 1) \<noteq> Inl ZeroDivisionError"
    using assms by (simp add: int_true_divide_ZeroDivisionError)
  show "Reservoir_append r x u d \<noteq> Inl ZeroDivisionError"
    using nz
    by (auto simp: Reservoir_append_def Let_def np_random_choice_def deque_setitem_def
        split: if_splits sum.splits)
  show "0 \<le> res_i r'" if "Reservoir_append r x u d = Inr r'"
    using that assms
    by (auto simp: Reservoir_append_def Let_def np_random_choice_def deque_setitem_def
        split: if_splits sum.splits)
qed

lemma Reservoir_appends_no_zero_division:
  "0 \<le> res_i r \<Longrightarrow> Reservoir_appends r ops \<noteq> Inl ZeroDivisionError"
proof (induction ops arbitrary: r)
  case Nil
  then show ?case by simp
next
  case (Cons a ops)
  obtain x u d where a: "a = (x, u, d)" by (cases a) auto
  show ?case
  proof (cases "Reservoir_append r x u d")
    case (Inl e)
    with Reservoir_append_no_zero_division(1)[OF Cons.prems, of x u d] a show ?thesis by simp
  next
    case (Inr r1)
    then have "0 \<le> res_i r1" using Reservoir_append_no_zero_division(2)[OF Cons.prems] by blast
    then have "Reservoir_appends r1 ops \<noteq> Inl ZeroDivisionError" by (rule Cons.IH)
    with Inr a show ?thesis by simp
  qed
qed

lemma Reservoir_appends_init_inv:
  assumes "Reservoir_appends (Reservoir_init C) ops = Inr r"
  shows "res_maxlen r = C" and "res_i r = int (length ops)"
    and "deque_maxlen (reservoir r) = None"
    and "length (items (reservoir r)) = min (length ops) (nat C)"
  using Reservoir_appends_inv[OF assms, of C 0] by (simp_all add: Reservoir_init_def)

subsection \<open>Admission\<close>




subsection \<open>Occupancy and capacity\<close>

text \<open>
  Claim C6. For a reservoir of capacity \<open>C \<ge> 1\<close>, every sequence of \<open>i\<close> calls of \<^verbatim>\<open>append\<close>
  returns, whatever the draws are, and the occupancy afterwards is \<open>min i C\<close>: it grows by
  one with each call up to the capacity and stays there.
\<close>

theorem reservoir_occupancy:
  assumes "1 \<le> C"
  shows "\<exists>r. Reservoir_appends (Reservoir_init C) ops = Inr r \<and>
             int (Reservoir_len r) = min (int (length ops)) C"
proof -
  obtain r where r: "Reservoir_appends (Reservoir_init C) ops = Inr r"
    using Reservoir_appends_total[OF assms, of "Reservoir_init C" 0 ops]
    by (auto simp: Reservoir_init_def)
  have "length (items (reservoir r)) = min (length ops) (nat C)"
    by (rule Reservoir_appends_init_inv(4)[OF r])
  moreover have "int (min (length ops) (nat C)) = min (int (length ops)) C"
    using assms by arith
  ultimately have "int (Reservoir_len r) = min (int (length ops)) C"
    by (simp add: Reservoir_len_def deque_len_def)
  with r show ?thesis by blast
qed

theorem reservoir_occupancy_witness:
  "\<exists>r. Reservoir_appends (Reservoir_init 2) [(10 :: nat, 0, 0), (20, 0, 0), (30, 1 / 2, 1)] = Inr r \<and>
       int (Reservoir_len r) = 2"
  using reservoir_occupancy[of 2 "[(10 :: nat, 0, 0), (20, 0, 0), (30, 1 / 2, 1)]"]
  by simp

text \<open>
  Claim C8, as stated, fails: neither constructor checks its capacity for 0. Constructing a
  \<^verbatim>\<open>CircularBuffer(0)\<close> returns a buffer, and so does \<^verbatim>\<open>Reservoir(0)\<close>, with capacity 0.
\<close>

theorem capacity_zero_counterexample:
  "CircularBuffer_init (Some 0)
     = Inr (\<lparr>buf_maxlen = Some 0, buffer = \<lparr>items = [], deque_maxlen = Some 0\<rparr>\<rparr> :: nat CircularBuffer) \<and>
   (Reservoir_init 0 :: nat Reservoir)
     = \<lparr>res_maxlen = 0, res_i = 0, reservoir = \<lparr>items = [], deque_maxlen = None\<rparr>\<rparr>"
  by (simp add: CircularBuffer_init_def deque_init_def Reservoir_init_def)

text \<open>
  Claim C8, amended. Constructing either buffer with capacity 0 succeeds, since neither
  constructor checks for it, so a constructed buffer can have capacity 0. The admission
  probability \<open>C / i\<close> is all the same never a division by zero, for every capacity and
  every sequence of insertions: the counter is incremented before it divides.
\<close>

theorem capacity_unchecked_no_zero_division:
  "\<not> isl (CircularBuffer_init (Some 0) :: error + 'a CircularBuffer) \<and>
   res_maxlen (Reservoir_init 0 :: 'b Reservoir) = 0 \<and>
   Reservoir_appends (Reservoir_init C :: 'b Reservoir) ops \<noteq> Inl ZeroDivisionError"
proof -
  have "Reservoir_appends (Reservoir_init C :: 'b Reservoir) ops \<noteq> Inl ZeroDivisionError"
    by (rule Reservoir_appends_no_zero_division) (simp add: Reservoir_init_def)
  then show ?thesis
    by (simp add: CircularBuffer_init_def deque_init_def Reservoir_init_def)
qed

theorem capacity_unchecked_no_zero_division_witness:
  "Reservoir_appends (Reservoir_init 0) [(10 :: nat, 1 / 2, 0)] \<noteq> Inl ZeroDivisionError"
  using capacity_unchecked_no_zero_division
    [where ?'a = nat and ?'b = nat, of 0 "[(10 :: nat, 1 / 2, 0)]"]
  by simp

section \<open>The agent\<close>

subsection \<open>Synchronising the target network\<close>

lemma agent_not_current_q: "re_match ''agent_'' v \<Longrightarrow> \<not> re_match ''current_q'' v"
  by (cases v) auto

lemma dense_agent:
  "v \<in> set (dense (''agent_'' @ s) layer) \<Longrightarrow> re_match ''agent_'' v"
  by (auto simp: dense_def)

lemma create_q_network_graph:
  "snd (create_q_network g outer scope)
     = g @ dense (outer @ scope @ ''/'') ''dense'' @ dense (outer @ scope @ ''/'') ''dense_1''
         @ dense (outer @ scope @ ''/'') ''dense_2''"
  by (simp add: create_q_network_def Let_def)

lemma create_policy_network_graph:
  "snd (create_policy_network g outer scope)
     = g @ dense (outer @ scope @ ''/'') ''dense'' @ dense (outer @ scope @ ''/'') ''dense_1''
         @ dense (outer @ scope @ ''/'') ''dense_2''"
  by (simp add: create_policy_network_def Let_def)

lemma Agent_init_Inr:
  assumes "Agent_init g nm idim adim max_replay max_supervised = Inr (agent, g')"
  shows "g' = snd (create_policy_network
                (snd (create_q_network (snd (create_q_network g (''agent_'' @ nm @ ''/'') ''current_q''))
                        (''agent_'' @ nm @ ''/'') ''target_q''))
                (''agent_'' @ nm @ ''/'') ''policy'')"
    and "update_ops agent = zip (get_collection g' ''target_q'') (get_collection g' ''current_q'')"
  using assms
  by (auto simp: Agent_init_def Let_def case_prod_beta split: sum.splits)

lemma Agent_init_update_ops:
  assumes "Agent_init g nm idim adim max_replay max_supervised = Inr (agent, g')"
    and "\<forall>v \<in> set g. re_match ''agent_'' v"
  shows "update_ops agent = []" and "\<forall>v \<in> set g'. re_match ''agent_'' v"
proof -
  note init = Agent_init_Inr[OF assms(1)]
  have da: "re_match ''agent_'' v" if "v \<in> set (dense (''agent_'' @ nm @ ''/'' @ sc) layer)"
    for v sc layer
    using that by (rule dense_agent)
  show all: "\<forall>v \<in> set g'. re_match ''agent_'' v"
    unfolding init(1) create_q_network_graph create_policy_network_graph
    using assms(2) da by (auto simp del: re_match.simps)
  have "get_collection g' ''current_q'' = []"
    unfolding get_collection_def filter_empty_conv using all agent_not_current_q by blast
  then show "update_ops agent = []" using init(2) by simp
qed

lemma update_target_network_empty:
  "update_ops agent = [] \<Longrightarrow> update_target_network agent sess = sess"
  by (simp add: update_target_network_def)

lemma net_variables_create_q_network:
  "net_variables (fst (create_q_network g outer scope))
     = dense (outer @ scope @ ''/'') ''dense'' @ dense (outer @ scope @ ''/'') ''dense_1''
         @ dense (outer @ scope @ ''/'') ''dense_2''"
  by (simp add: create_q_network_def Let_def)

lemma Agent_init_networks:
  assumes "Agent_init g nm idim adim max_replay max_supervised = Inr (agent, g')"
  shows "q_network agent = fst (create_q_network g (''agent_'' @ nm @ ''/'') ''current_q'')"
    and "target_q_network agent
           = fst (create_q_network (snd (create_q_network g (''agent_'' @ nm @ ''/'') ''current_q''))
                    (''agent_'' @ nm @ ''/'') ''target_q'')"
    and "input_dim agent = idim" and "action_dim agent = adim"
  using assms
  by (auto simp: Agent_init_def Let_def case_prod_beta split: sum.splits)

lemma Agent_init_succeeds:
  "0 \<le> max_replay \<Longrightarrow> max_replay < 2 ^ 63 \<Longrightarrow>
     \<exists>agent g'. Agent_init g nm idim adim max_replay max_supervised = Inr (agent, g')"
  by (simp add: Agent_init_def CircularBuffer_init_def deque_init_def Let_def case_prod_beta)

text \<open>
  Claim C1 fails on the code. For the agent \<^verbatim>\<open>Agent('1', 2, 3, 10, 10)\<close> built in an empty
  graph, \<^verbatim>\<open>update_ops\<close> is the empty list: every variable is named under \<^verbatim>\<open>agent_1/\<close>, and
  \<^verbatim>\<open>tf.get_collection\<close> with the scopes \<^verbatim>\<open>'current_q'\<close> and \<^verbatim>\<open>'target_q'\<close> filters by prefix.
  In a session where the current network's variables are 1 and all others 0,
  \<^verbatim>\<open>update_target_network\<close> leaves the target variables at 0, and the two networks still
  predict differently (here for a network whose output is its list of parameters).
\<close>

theorem update_target_network_copies_nothing:
  "case Agent_init [] ''1'' 2 3 10 10 of
     Inl e \<Rightarrow> False
   | Inr (agent, g) \<Rightarrow>
       update_ops agent = [] \<and>
       (let sess = (\<lambda>v. if re_match ''agent_1/current_q'' v then 1 else (0::real));
            sess' = update_target_network agent sess
        in sess' ''agent_1/target_q/dense/kernel:0'' = 0 \<and>
           sess' ''agent_1/current_q/dense/kernel:0'' = 1 \<and>
           sess_run_output (\<lambda>ws x. ws) sess' (target_q_network agent) [[0, 0 :: real]]
             = [[0, 0, 0, 0, 0, 0]] \<and>
           sess_run_output (\<lambda>ws x. ws) sess' (q_network agent) [[0, 0 :: real]]
             = [[1, 1, 1, 1, 1, 1]])"
proof -
  let ?s = "\<lambda>v. if re_match ''agent_1/current_q'' v then 1 else (0::real)"
  obtain agent g where init: "Agent_init [] ''1'' 2 3 10 10 = Inr (agent, g)"
    using Agent_init_succeeds[of 10 "[]" "''1''" 2 3 10] by auto
  have ops: "update_ops agent = []"
    using Agent_init_update_ops(1)[OF init] by simp
  then have same: "update_target_network agent ?s = ?s"
    by (rule update_target_network_empty)
  note nets = Agent_init_networks(1,2)[OF init]
  have tv: "map ?s (net_variables (target_q_network agent)) = [0, 0, 0, 0, 0, 0]"
    unfolding nets net_variables_create_q_network by (simp add: dense_def)
  have qv: "map ?s (net_variables (q_network agent)) = [1, 1, 1, 1, 1, 1]"
    unfolding nets net_variables_create_q_network by (simp add: dense_def)
  have "update_ops agent = [] \<and>
        (let sess = ?s; sess' = update_target_network agent sess
         in sess' ''agent_1/target_q/dense/kernel:0'' = 0 \<and>
            sess' ''agent_1/current_q/dense/kernel:0'' = 1 \<and>
            sess_run_output (\<lambda>ws x. ws) sess' (target_q_network agent) [[0, 0 :: real]]
              = [[0, 0, 0, 0, 0, 0]] \<and>
            sess_run_output (\<lambda>ws x. ws) sess' (q_network agent) [[0, 0 :: real]]
              = [[1, 1, 1, 1, 1, 1]])"
    unfolding Let_def same sess_run_output_def using ops tv qv by simp
  then show ?thesis
    unfolding init by simp
qed

subsection \<open>The bootstrap target of the value-training step\<close>

lemma round_binary32_zero [simp]: "round_binary32 0 = Finite 0"
  by (simp add: round_binary32_def round_nearest_def)



lemma fadd32_NaN_right [simp]: "fadd32 x NaN = NaN"
  by (cases x) simp_all










subsection \<open>Shape assertions of the prediction calls\<close>

text \<open>
  Claim C9. For every array passed as \<^verbatim>\<open>state\<close> that is not a batch of rows of the
  configured width (a two-dimensional array whose second dimension differs from
  \<^verbatim>\<open>input_dim\<close>, or an array that is not two-dimensional), \<^verbatim>\<open>predict_q\<close> and
  \<^verbatim>\<open>predict_policy\<close> raise before the network is run. The exception is the
  \<^verbatim>\<open>AssertionError\<close> of their \<^verbatim>\<open>assert\<close> statements, the shape-mismatch error of the
  specification.
\<close>

theorem predict_shape_assertion:
  assumes "length (shape st) = 2 \<longrightarrow> shape st ! 1 \<noteq> input_dim agent"
  shows "predict_q fwd agent sess st = Inl AssertionError \<and>
         predict_policy fwd agent sess st = Inl AssertionError"
  using assms by (simp add: predict_q_def predict_policy_def)

theorem predict_shape_assertion_witness:
  "predict_q (\<lambda>ws x. [100, 200])
     \<lparr>replay_memory = \<lparr>buf_maxlen = Some 3, buffer = \<lparr>items = [], deque_maxlen = Some 3\<rparr>\<rparr>,
        supervised_memory = Reservoir_init 3, input_dim = 2, action_dim = 2, name = ''1'',
        q_network = \<lparr>net_variables = []\<rparr>, target_q_network = \<lparr>net_variables = []\<rparr>,
        policy_network = \<lparr>net_variables = []\<rparr>, update_ops = []\<rparr>
     (\<lambda>v. 0 :: real) \<lparr>shape = [1, 3], entries = [1, 2, 3]\<rparr> = Inl AssertionError"
  using predict_shape_assertion
    [of "\<lparr>shape = [1, 3], entries = [1, 2, 3]\<rparr>"
        "\<lparr>replay_memory = \<lparr>buf_maxlen = Some 3, buffer = \<lparr>items = [], deque_maxlen = Some 3\<rparr>\<rparr>,
           supervised_memory = Reservoir_init 3, input_dim = 2, action_dim = 2, name = ''1'',
           q_network = \<lparr>net_variables = []\<rparr>, target_q_network = \<lparr>net_variables = []\<rparr>,
           policy_network = \<lparr>net_variables = []\<rparr>, update_ops = []\<rparr>"
        "\<lambda>ws x. [100, 200]" "\<lambda>v. 0 :: real"]
  by simp

end
